theory Spec2Isabelle
  imports Complex_Main "HOL-Library.Char_ord"
begin

section \<open>Strings and values\<close>

text \<open>
  A Python \<open>str\<close> is modelled as a \<open>string\<close> (a list of characters), one character
  per code point; the model covers ASCII text. \<open>str.upper\<close> maps the letters
  \<open>a\<close>..\<open>z\<close> to \<open>A\<close>..\<open>Z\<close> and leaves every other character alone;
  \<open>str.strip\<close> removes the leading and the trailing characters for which
  \<open>str.isspace\<close> holds (tab, line feed, vertical tab, form feed, carriage return, the
  four separators 0x1C..0x1F and the space).

  A Python \<open>float\<close> is modelled by its exact value in \<open>rat\<close>. In the validator and
  in the feature extractor every quotient is only compared with the bounds 0 and 1, or
  with the one quotient it is claimed to equal, so the true division \<open>/\<close> of two
  integers is the exact quotient there: rounding to binary64 is monotone and 0 and 1
  are floats, so the comparisons come out the same. In the statistics, whose quotients
  are added up, \<open>/\<close> is the correctly rounded binary64 quotient \<open>float_div\<close> below.
\<close>

definition isspace :: "char \<Rightarrow> bool" where
  "isspace c = (c \<in> set [CHR 0x09, CHR 0x0A, CHR 0x0B, CHR 0x0C, CHR 0x0D,
                          CHR 0x1C, CHR 0x1D, CHR 0x1E, CHR 0x1F, CHR 0x20])"

definition strip :: "string \<Rightarrow> string" where
  "strip s = rev (dropWhile isspace (rev (dropWhile isspace s)))"

definition upper_char :: "char \<Rightarrow> char" where
  "upper_char c =
     (case map_of (zip ''abcdefghijklmnopqrstuvwxyz'' ''ABCDEFGHIJKLMNOPQRSTUVWXYZ'') c of
        None \<Rightarrow> c
      | Some u \<Rightarrow> u)"

definition upper :: "string \<Rightarrow> string" where
  "upper s = map upper_char s"

text \<open>
  What a caller can pass for the parameter \<open>sequence\<close>: \<open>None\<close>, a \<open>str\<close>, or an
  object of any other type.
\<close>

datatype py_value = PyNone | PyStr string | PyOther

section \<open>The validator (\<open>api/utils/validators.py\<close>)\<close>

text \<open>The fields set by \<open>RNAValidator.__init__\<close>.\<close>

definition valid_bases :: "char set" where
  "valid_bases = set ''AUGC''"

definition min_length :: nat where
  "min_length = 1"

definition max_length :: nat where
  "max_length = 50000"

definition min_gc_content :: rat where
  "min_gc_content = 0"

definition max_gc_content :: rat where
  "max_gc_content = 1"

text \<open>
  One constructor for each message that \<open>validate_rna_sequence\<close> appends, carrying the
  values that the message interpolates:
  \<^item> \<open>SeqIsNone\<close>: "The sequence is None";
  \<^item> \<open>SeqNotString\<close>: "The sequence must be a string";
  \<^item> \<open>SeqEmpty\<close>: "An empty sequence is invalid";
  \<^item> \<open>TooShort m\<close>: "The sequence length is too short: m";
  \<^item> \<open>TooLong m\<close>: "The sequence length is too long: m";
  \<^item> \<open>InvalidBases cs\<close>: "Invalid bases are included: " followed by the characters
    \<open>cs\<close> joined with ", ";
  \<^item> \<open>Repetitive n\<close>: "An abnormal repetitive sequence was detected" followed by \<open>n\<close>;
  \<^item> \<open>GCOutOfRange g lo hi\<close>: "The GC content is out of range: g (Valid range: lo-hi)".
\<close>

datatype error =
    SeqIsNone
  | SeqNotString
  | SeqEmpty
  | TooShort nat
  | TooLong nat
  | InvalidBases "char list"
  | Repetitive nat
  | GCOutOfRange rat rat rat

text \<open>\<open>_calculate_gc_content\<close>; \<open>str.count\<close> of a one-character string is \<open>count_list\<close>.\<close>

definition calculate_gc_content :: "string \<Rightarrow> rat" where
  "calculate_gc_content sequence =
     (if length sequence = 0 then 0
      else
        let g_count = count_list sequence CHR ''G'';
            c_count = count_list sequence CHR ''C''
        in of_nat (g_count + c_count) / of_nat (length sequence))"

text \<open>
  \<open>_check_repetitive_sequence\<close>. The loop \<open>for i in range(1, len(sequence))\<close> is the
  recursion \<open>repeat_scan\<close> over the characters from index 1 on; its first argument is
  \<open>sequence[i-1]\<close>, the others are the loop variables \<open>max_repeat\<close> and
  \<open>current_repeat\<close>.
\<close>

fun repeat_scan :: "char \<Rightarrow> string \<Rightarrow> nat \<Rightarrow> nat \<Rightarrow> nat" where
  "repeat_scan prev [] max_repeat current_repeat = max_repeat"
| "repeat_scan prev (c # cs) max_repeat current_repeat =
     (if c = prev
      then repeat_scan c cs (max max_repeat (current_repeat + 1)) (current_repeat + 1)
      else repeat_scan c cs max_repeat 1)"

definition check_repetitive_sequence :: "string \<Rightarrow> nat" where
  "check_repetitive_sequence sequence =
     (case sequence of
        [] \<Rightarrow> 0
      | c # cs \<Rightarrow> repeat_scan c cs 1 1)"

text \<open>
  \<open>validate_rna_sequence\<close>. The three early returns come first; after them the error
  list is threaded through the checks in the order of the source.
\<close>

definition validate_rna_sequence :: "py_value \<Rightarrow> bool \<times> error list" where
  "validate_rna_sequence sequence =
     (case sequence of
        PyNone \<Rightarrow> (False, [SeqIsNone])
      | PyOther \<Rightarrow> (False, [SeqNotString])
      | PyStr s \<Rightarrow>
          if strip s = [] then (False, [SeqEmpty])
          else
            let cleaned_sequence = upper (strip s);
                errors0 = [];
                errors1 = (if length cleaned_sequence < min_length
                           then errors0 @ [TooShort min_length] else errors0);
                errors2 = (if length cleaned_sequence > max_length
                           then errors1 @ [TooLong max_length] else errors1);
                invalid_bases = set cleaned_sequence - valid_bases;
                errors3 = (if invalid_bases \<noteq> {}
                           then errors2 @ [InvalidBases (sorted_list_of_set invalid_bases)]
                           else errors2);
                errors4 = (if length cleaned_sequence > 0
                           then (let max_repeat_length = check_repetitive_sequence cleaned_sequence
                                 in if max_repeat_length > 50
                                    then errors3 @ [Repetitive max_repeat_length]
                                    else errors3)
                           else errors3);
                errors5 = (if length cleaned_sequence > 0 \<and> invalid_bases = {}
                           then (let gc_content = calculate_gc_content cleaned_sequence
                                 in if gc_content < min_gc_content \<or> gc_content > max_gc_content
                                    then errors4 @ [GCOutOfRange gc_content min_gc_content max_gc_content]
                                    else errors4)
                           else errors4)
            in (length errors5 = 0, errors5))"

section \<open>Binary64 quotients and sums\<close>

text \<open>
  Python's \<open>a / b\<close> on two integers is the quotient rounded once to the nearest
  binary64 value, ties to the value with an even significand; \<open>x + y\<close> on two floats
  is the sum rounded in the same way. The doubles around a non-negative \<open>x\<close> are the
  multiples of \<open>quantum x\<close>, which is \<open>2 ^ (e - 52)\<close> for the binary exponent \<open>e\<close> of
  \<open>x\<close>, and \<open>2 ^ (- 1074)\<close> from the smallest normal number down. The two searches find
  the exponent: \<open>exp_down\<close> the least \<open>k\<close> from 1 to 1022 with \<open>1 / 2 ^ k \<le> x\<close> for
  \<open>x\<close> below 1, \<open>exp_up\<close> the \<open>e\<close> up to 1023 with \<open>x < 2 ^ (e + 1)\<close> for \<open>x\<close> from 1
  on. No quotient or sum of the statistics reaches 2, so overflow is not modelled.
\<close>

fun exp_down :: "nat \<Rightarrow> nat \<Rightarrow> rat \<Rightarrow> nat" where
  "exp_down 0 k x = k"
| "exp_down (Suc fuel) k x = (if 1 / 2 ^ k \<le> x then k else exp_down fuel (Suc k) x)"

fun exp_up :: "nat \<Rightarrow> nat \<Rightarrow> rat \<Rightarrow> nat" where
  "exp_up 0 e x = e"
| "exp_up (Suc fuel) e x = (if x < 2 ^ Suc e then e else exp_up fuel (Suc e) x)"

definition quantum :: "rat \<Rightarrow> rat" where
  "quantum x =
     (if 1 \<le> x then 2 ^ exp_up 1023 0 x / 2 ^ 52
      else 1 / 2 ^ (exp_down 1021 1 x + 52))"

definition round_half_even :: "rat \<Rightarrow> int" where
  "round_half_even r =
     (let f = \<lfloor>r\<rfloor>; d = r - of_int f
      in if d < 1 / 2 then f
         else if 1 / 2 < d then f + 1
         else if even f then f else f + 1)"

definition round_b64 :: "rat \<Rightarrow> rat" where
  "round_b64 x = of_int (round_half_even (x / quantum x)) * quantum x"

definition float_div :: "nat \<Rightarrow> nat \<Rightarrow> rat" where
  "float_div a b = round_b64 (of_nat a / of_nat b)"

definition float_add :: "rat \<Rightarrow> rat \<Rightarrow> rat" where
  "float_add x y = round_b64 (x + y)"

text \<open>
  \<open>get_sequence_statistics\<close>. The two dictionaries are association lists in insertion
  order; the empty dictionary \<open>{}\<close> that the function returns for an empty input is
  \<open>None\<close>.
\<close>

record statistics =
  stat_length :: nat
  base_counts :: "(char \<times> nat) list"
  base_frequencies :: "(char \<times> rat) list"
  gc_content :: rat
  au_content :: rat
  max_repeat_length :: nat

definition get_sequence_statistics :: "string \<Rightarrow> statistics option" where
  "get_sequence_statistics sequence =
     (if sequence = [] then None
      else
        let cleaned = upper sequence;
            len = length cleaned
        in if len = 0 then None
           else
             let counts = [(CHR ''A'', count_list cleaned CHR ''A''),
                           (CHR ''U'', count_list cleaned CHR ''U''),
                           (CHR ''G'', count_list cleaned CHR ''G''),
                           (CHR ''C'', count_list cleaned CHR ''C'')];
                 count_of = (\<lambda>b. the (map_of counts b));
                 gc = float_div (count_of CHR ''G'' + count_of CHR ''C'') len;
                 au = float_div (count_of CHR ''A'' + count_of CHR ''U'') len
             in Some \<lparr> stat_length = len,
                       base_counts = counts,
                       base_frequencies = map (\<lambda>(base, count). (base, float_div count len)) counts,
                       gc_content = gc,
                       au_content = au,
                       max_repeat_length = check_repetitive_sequence cleaned \<rparr>)"

section \<open>The feature extractor (\<open>api/services/classifier.py\<close>)\<close>

definition dimers :: "string list" where
  "dimers = [''AA'', ''AU'', ''AG'', ''AC'', ''UU'', ''UG'', ''UC'', ''GG'', ''GC'', ''CC'']"

text \<open>
  The inner loop \<open>for i in range(len(sequence) - 1)\<close>: the slice \<open>sequence[i:i+2]\<close> is
  \<open>take 2 (drop i sequence)\<close>.
\<close>

definition dimer_count :: "string \<Rightarrow> string \<Rightarrow> nat" where
  "dimer_count sequence dimer =
     fold (\<lambda>i count. if take 2 (drop i sequence) = dimer then count + 1 else count)
          [0 ..< length sequence - 1] 0"

definition dimer_freq :: "string \<Rightarrow> string \<Rightarrow> rat" where
  "dimer_freq sequence dimer =
     (if length sequence > 1
      then of_nat (dimer_count sequence dimer) / of_nat (length sequence - 1)
      else 0)"

text \<open>\<open>_extract_features\<close>; the array it returns is the list of its entries.\<close>

definition extract_features :: "string \<Rightarrow> rat list" where
  "extract_features sequence0 =
     (let sequence = upper sequence0;
          len = length sequence
      in if len = 0 then replicate 20 0
         else
           let a_count = count_list sequence CHR ''A'';
               u_count = count_list sequence CHR ''U'';
               g_count = count_list sequence CHR ''G'';
               c_count = count_list sequence CHR ''C'';
               a_freq = of_nat a_count / of_nat len;
               u_freq = of_nat u_count / of_nat len;
               g_freq = of_nat g_count / of_nat len;
               c_freq = of_nat c_count / of_nat len;
               gc_content = of_nat (g_count + c_count) / of_nat len;
               au_ratio = of_nat (a_count + u_count) / of_nat len;
               purine_ratio = of_nat (a_count + g_count) / of_nat len;
               pyrimidine_ratio = of_nat (u_count + c_count) / of_nat len;
               dimer_freqs = map (dimer_freq sequence) dimers
           in [of_nat len, a_freq, u_freq, g_freq, c_freq,
               gc_content, au_ratio, purine_ratio, pyrimidine_ratio] @ dimer_freqs)"

section \<open>Notions of the specification\<close>

text \<open>
  The longest run of one repeated character, stated without the scan: at every position
  the run that starts there is the character and the equal characters that follow it,
  and the longest run is the maximum over all positions.
\<close>

fun longest_run :: "string \<Rightarrow> nat" where
  "longest_run [] = 0"
| "longest_run (c # cs) = max (Suc (length (takeWhile (\<lambda>x. x = c) cs))) (longest_run cs)"

text \<open>The alphabet error among the errors of the validator.\<close>

fun is_invalid_bases :: "error \<Rightarrow> bool" where
  "is_invalid_bases (InvalidBases cs) = True"
| "is_invalid_bases _ = False"

section \<open>Normalisation of conformant sequences\<close>

lemma valid_bases_simp:
  "c \<in> valid_bases \<longleftrightarrow> c = CHR ''A'' \<or> c = CHR ''U'' \<or> c = CHR ''G'' \<or> c = CHR ''C''"
  by (auto simp: valid_bases_def)

lemma isspace_not_valid: "c \<in> valid_bases \<Longrightarrow> \<not> isspace c"
  by (auto simp: valid_bases_simp isspace_def)

lemma upper_char_bases:
  "upper_char CHR ''A'' = CHR ''A''" "upper_char CHR ''U'' = CHR ''U''"
  "upper_char CHR ''G'' = CHR ''G''" "upper_char CHR ''C'' = CHR ''C''"
  by (simp_all add: upper_char_def)

lemma upper_char_valid: "c \<in> valid_bases \<Longrightarrow> upper_char c = c"
  using upper_char_bases by (auto simp: valid_bases_simp)

lemma upper_valid: "set s \<subseteq> valid_bases \<Longrightarrow> upper s = s"
  by (induction s) (auto simp: upper_def upper_char_valid)

lemma upper_eq_Nil: "upper s = [] \<longleftrightarrow> s = []"
  by (simp add: upper_def)

lemma dropWhile_none: "\<forall>c\<in>set s. \<not> P c \<Longrightarrow> dropWhile P s = s"
  by (cases s) auto

lemma strip_valid: "set s \<subseteq> valid_bases \<Longrightarrow> strip s = s"
  by (simp add: strip_def dropWhile_none isspace_not_valid subset_iff)

section \<open>The GC content lies between 0 and 1\<close>

lemma gc_count_le: "count_list s CHR ''G'' + count_list s CHR ''C'' \<le> length s"
  by (induction s) auto

lemma calculate_gc_content_range:
  "0 \<le> calculate_gc_content s \<and> calculate_gc_content s \<le> 1"
proof (cases "s = []")
  case True
  then show ?thesis by (simp add: calculate_gc_content_def)
next
  case False
  then have pos: "0 < (of_nat (length s) :: rat)" by simp
  have "(of_nat (count_list s CHR ''G'' + count_list s CHR ''C'') :: rat) \<le> of_nat (length s)"
    using gc_count_le [of s] by (simp only: of_nat_le_iff)
  with pos False show ?thesis
    by (simp add: calculate_gc_content_def Let_def divide_le_eq_1)
qed

section \<open>The scan computes the longest run\<close>

lemma takeWhile_replicate_app:
  "takeWhile (\<lambda>x. x = c) (replicate n c @ cs) = replicate n c @ takeWhile (\<lambda>x. x = c) cs"
  by (induction n) simp_all

lemma longest_run_replicate_app_ge: "n \<le> longest_run (replicate n c @ cs)"
proof (induction n)
  case 0
  show ?case by simp
next
  case (Suc n)
  then show ?case by (simp add: takeWhile_replicate_app)
qed

lemma longest_run_replicate: "longest_run (replicate n c) = n"
proof (induction n)
  case 0
  show ?case by simp
next
  case (Suc n)
  have "takeWhile (\<lambda>x. x = c) (replicate n c) = replicate n c"
    using takeWhile_replicate_app [of c n "[]"] by simp
  with Suc show ?case by simp
qed

lemma longest_run_replicate_other:
  "c \<noteq> p \<Longrightarrow> longest_run (replicate n p @ c # cs) = max n (longest_run (c # cs))"
proof (induction n)
  case 0
  show ?case by simp
next
  case (Suc n)
  have "takeWhile (\<lambda>x. x = p) (replicate n p @ c # cs) = replicate n p"
    using Suc.prems by (simp add: takeWhile_replicate_app)
  with Suc show ?case by simp
qed

text \<open>
  The loop invariant: with \<open>current_repeat\<close> the length of the run that ends at the
  previous character and \<open>max_repeat\<close> at least as large, the scan of the rest returns
  the larger of \<open>max_repeat\<close> and the longest run of that run followed by the rest.
\<close>

lemma repeat_scan_longest_run:
  "1 \<le> cr \<Longrightarrow> cr \<le> mr \<Longrightarrow>
   repeat_scan p cs mr cr = max mr (longest_run (replicate cr p @ cs))"
proof (induction cs arbitrary: p mr cr)
  case Nil
  then show ?case by (simp add: longest_run_replicate)
next
  case (Cons c cs)
  show ?case
  proof (cases "c = p")
    case True
    have ge: "cr + 1 \<le> longest_run (replicate (cr + 1) c @ cs)"
      by (rule longest_run_replicate_app_ge)
    have "repeat_scan p (c # cs) mr cr
            = max (max mr (cr + 1)) (longest_run (replicate (cr + 1) c @ cs))"
      using True Cons.IH [of "cr + 1" "max mr (cr + 1)" c] by simp
    also have "\<dots> = max mr (longest_run (replicate (cr + 1) c @ cs))"
      using ge by simp
    also have "replicate (cr + 1) c @ cs = replicate cr p @ c # cs"
      using True by (simp add: replicate_app_Cons_same)
    finally show ?thesis .
  next
    case False
    have "repeat_scan p (c # cs) mr cr = max mr (longest_run (replicate 1 c @ cs))"
      using False Cons.IH [of 1 mr c] Cons.prems by simp
    also have "\<dots> = max mr (longest_run (replicate cr p @ c # cs))"
      using False Cons.prems by (simp add: longest_run_replicate_other)
    finally show ?thesis .
  qed
qed

lemma check_repetitive_sequence_longest_run:
  "check_repetitive_sequence s = longest_run s"
proof (cases s)
  case Nil
  then show ?thesis by (simp add: check_repetitive_sequence_def)
next
  case (Cons c cs)
  have "repeat_scan c cs 1 1 = max 1 (longest_run (replicate 1 c @ cs))"
    by (rule repeat_scan_longest_run) simp_all
  with Cons show ?thesis by (simp add: check_repetitive_sequence_def)
qed

text \<open>
  The longest run is at least \<open>n\<close> exactly when the sequence holds a block of \<open>n\<close>
  equal characters.
\<close>

lemma longest_run_block: "n \<le> longest_run (ps @ replicate n c @ ss)"
proof (induction ps)
  case Nil
  show ?case using longest_run_replicate_app_ge [of n c ss] by simp
next
  case (Cons p ps)
  then show ?case by simp
qed

lemma longest_run_has_block:
  "0 < n \<Longrightarrow> n \<le> longest_run s \<Longrightarrow> \<exists>c ps ss. s = ps @ replicate n c @ ss"
proof (induction s)
  case Nil
  then show ?case by simp
next
  case (Cons a as)
  let ?k = "length (takeWhile (\<lambda>x. x = a) as)"
  show ?case
  proof (cases "n \<le> Suc ?k")
    case True
    have tw: "takeWhile (\<lambda>x. x = a) as = replicate ?k a"
      by (metis (mono_tags, lifting) replicate_eqI set_takeWhileD)
    have "a # as = replicate (Suc ?k) a @ dropWhile (\<lambda>x. x = a) as"
      using tw takeWhile_dropWhile_id [of "\<lambda>x. x = a" as] by (metis append_Cons replicate_Suc)
    also have "replicate (Suc ?k) a = replicate n a @ replicate (Suc ?k - n) a"
      using True by (metis le_add_diff_inverse replicate_add)
    finally have "a # as = [] @ replicate n a @ (replicate (Suc ?k - n) a @ dropWhile (\<lambda>x. x = a) as)"
      by simp
    then show ?thesis by blast
  next
    case False
    with Cons.prems have "n \<le> longest_run as" by simp
    with Cons.IH Cons.prems obtain c ps ss where "as = ps @ replicate n c @ ss" by blast
    then have "a # as = (a # ps) @ replicate n c @ ss" by simp
    then show ?thesis by blast
  qed
qed

lemma longest_run_ge_iff:
  "0 < n \<Longrightarrow> n \<le> longest_run s \<longleftrightarrow> (\<exists>c ps ss. s = ps @ replicate n c @ ss)"
  using longest_run_block longest_run_has_block by blast

section \<open>The errors of a non-blank string\<close>

text \<open>
  After the early returns, the error list is the concatenation of at most three errors:
  the minimum length cannot be missed by a non-empty string, and the GC content cannot
  leave its range.
\<close>

lemma validate_rna_sequence_str:
  assumes "strip s \<noteq> []"
  shows "validate_rna_sequence (PyStr s) =
     (let c = upper (strip s);
          errors =
            (if max_length < length c then [TooLong max_length] else []) @
            (if set c - valid_bases \<noteq> {}
             then [InvalidBases (sorted_list_of_set (set c - valid_bases))] else []) @
            (if 50 < longest_run c then [Repetitive (longest_run c)] else [])
      in (errors = [], errors))"
proof -
  have gc: "\<not> (calculate_gc_content (upper (strip s)) < 0
               \<or> 1 < calculate_gc_content (upper (strip s)))"
    using calculate_gc_content_range [of "upper (strip s)"] by auto
  show ?thesis
    using assms gc
    by (simp add: validate_rna_sequence_def Let_def min_length_def upper_eq_Nil
        min_gc_content_def max_gc_content_def check_repetitive_sequence_longest_run)
qed

lemma strip_AUGX: "strip ''AUGX'' = ''AUGX''"
  by (simp add: strip_def isspace_def)

lemma upper_AUGX: "upper ''AUGX'' = ''AUGX''"
  by (simp add: upper_def upper_char_def)

lemma strip_augc: "strip ''augc'' = ''augc''"
  by (simp add: strip_def isspace_def)

lemma upper_augc: "upper ''augc'' = ''AUGC''"
  by (simp add: upper_def upper_char_def)

text \<open>
  Scenario 1 of the specification: lower case is normalised before the checks, so
  \<open>augc\<close> is valid.
\<close>

lemma validate_augc:
  "validate_rna_sequence (PyStr ''augc'') = (True, [])"
  by (simp add: validate_rna_sequence_str strip_augc upper_augc valid_bases_def max_length_def)

lemma strip_X60: "strip (replicate 60 CHR ''X'') = replicate 60 CHR ''X''"
proof -
  have "\<forall>c\<in>set (replicate 60 CHR ''X''). \<not> isspace c" by (simp add: isspace_def)
  then show ?thesis by (simp only: strip_def dropWhile_none set_rev rev_rev_ident)
qed

lemma upper_X60: "upper (replicate 60 CHR ''X'') = replicate 60 CHR ''X''"
proof -
  have "upper_char CHR ''X'' = CHR ''X''" by (simp add: upper_char_def)
  then show ?thesis by (simp add: upper_def)
qed

section \<open>Claims about the validator\<close>

text \<open>
  C2. Every sequence over the alphabet A, U, G, C whose length lies between 1 and 50000
  and whose longest run of one repeated character is at most 50 is valid, with an empty
  error list.
\<close>

theorem validate_accepts_conformant:
  assumes "set s \<subseteq> valid_bases" and "1 \<le> length s" and "length s \<le> 50000"
    and "longest_run s \<le> 50"
  shows "validate_rna_sequence (PyStr s) = (True, [])"
proof -
  have ne: "s \<noteq> []" using assms(2) by auto
  have cl: "upper s = s" "strip s = s"
    using assms(1) by (simp_all add: strip_valid upper_valid)
  have inv: "set s - valid_bases = {}" using assms(1) by auto
  have "strip s \<noteq> []" using ne cl by simp
  then show ?thesis
    using assms(3,4) inv by (simp add: validate_rna_sequence_str cl max_length_def)
qed

theorem validate_accepts_conformant_witness:
  "validate_rna_sequence (PyStr ''AUGC'') = (True, [])"
proof -
  have a: "set ''AUGC'' \<subseteq> valid_bases" by (simp add: valid_bases_def)
  have b: "1 \<le> length ''AUGC''" by simp
  have c: "length ''AUGC'' \<le> 50000" by simp
  have d: "longest_run ''AUGC'' \<le> 50" by simp
  show ?thesis by (rule validate_accepts_conformant [OF a b c d])
qed

text \<open>
  C3. For every input, be it \<open>None\<close>, an object that is not a string, or any string, the
  flag that \<open>validate_rna_sequence\<close> returns is true exactly when the error list that it
  returns is empty.
\<close>

theorem validate_is_valid_iff_no_errors:
  "fst (validate_rna_sequence x) \<longleftrightarrow> snd (validate_rna_sequence x) = []"
  by (cases x) (simp_all add: validate_rna_sequence_def Let_def)

text \<open>
  C4. For a string whose normalised form is not empty, the scan of the source computes
  the longest run, and the error list holds the repeat error naming \<open>n\<close> exactly when
  \<open>n\<close> is the longest run of the normalised form and exceeds 50, whether or not the
  alphabet error was reported; sixty times \<open>A\<close> is invalid, with the one error naming
  the run length 60.
\<close>

theorem repeat_anomaly_iff:
  assumes "strip s \<noteq> []"
  shows "check_repetitive_sequence (upper (strip s)) = longest_run (upper (strip s)) \<and>
         (Repetitive n \<in> set (snd (validate_rna_sequence (PyStr s)))
            \<longleftrightarrow> n = longest_run (upper (strip s)) \<and> 50 < n) \<and>
         validate_rna_sequence (PyStr (replicate 60 CHR ''A'')) = (False, [Repetitive 60])"
proof -
  let ?c = "upper (strip s)"
  have iff: "Repetitive n \<in> set (snd (validate_rna_sequence (PyStr s)))
            \<longleftrightarrow> n = longest_run ?c \<and> 50 < n"
    using assms by (auto simp add: validate_rna_sequence_str Let_def)
  let ?a = "replicate 60 CHR ''A''"
  have A: "set ?a \<subseteq> valid_bases" by (simp add: valid_bases_def)
  have cl: "upper ?a = ?a" "strip ?a = ?a"
    using A by (simp_all only: strip_valid upper_valid)
  have inv: "set ?a - valid_bases = {}" using A by auto
  have "strip ?a \<noteq> []" by (simp only: cl) simp
  then have sixty: "validate_rna_sequence (PyStr ?a) = (False, [Repetitive 60])"
    using inv by (simp add: validate_rna_sequence_str cl max_length_def longest_run_replicate)
  show ?thesis using iff sixty by (simp add: check_repetitive_sequence_longest_run)
qed

theorem repeat_anomaly_iff_witness:
  "strip (replicate 60 CHR ''X'') \<noteq> [] \<and>
   InvalidBases ''X'' \<in> set (snd (validate_rna_sequence (PyStr (replicate 60 CHR ''X'')))) \<and>
   Repetitive 60 \<in> set (snd (validate_rna_sequence (PyStr (replicate 60 CHR ''X''))))"
proof -
  let ?x = "replicate 60 CHR ''X''"
  have h: "strip ?x \<noteq> []" by (simp only: strip_X60) simp
  have lr: "longest_run (upper (strip ?x)) = 60"
    by (simp only: strip_X60 upper_X60 longest_run_replicate)
  have rep: "Repetitive 60 \<in> set (snd (validate_rna_sequence (PyStr ?x)))"
    using repeat_anomaly_iff [OF h, of 60] lr by simp
  have bad: "set ?x - valid_bases = {CHR ''X''}" by (auto simp: valid_bases_def)
  have nv: "CHR ''X'' \<notin> valid_bases" by (simp add: valid_bases_def)
  have inv: "InvalidBases ''X'' \<in> set (snd (validate_rna_sequence (PyStr ?x)))"
    using h bad nv by (simp add: validate_rna_sequence_str Let_def strip_X60 upper_X60)
  show ?thesis using h rep inv by blast
qed

text \<open>
  C5. The alphabet check reads the normalised sequence (trimmed, in upper case): when it
  holds a character outside A, U, G, C, the string is invalid and its error list holds
  exactly one alphabet error, which lists the distinct offending characters in sorted
  order.
\<close>

theorem alphabet_error_once:
  assumes "set (upper (strip s)) - valid_bases \<noteq> {}"
  shows "fst (validate_rna_sequence (PyStr s)) = False \<and>
         (\<exists>cs. filter is_invalid_bases (snd (validate_rna_sequence (PyStr s))) = [InvalidBases cs]
               \<and> sorted cs \<and> distinct cs \<and> set cs = set (upper (strip s)) - valid_bases)"
proof -
  let ?c = "upper (strip s)"
  let ?bad = "set ?c - valid_bases"
  have ne: "strip s \<noteq> []" using assms by (auto simp: upper_def)
  have fin: "finite ?bad" by simp
  have props: "sorted (sorted_list_of_set ?bad)" "distinct (sorted_list_of_set ?bad)"
     "set (sorted_list_of_set ?bad) = ?bad"
    using fin by simp_all
  have flt: "filter is_invalid_bases (snd (validate_rna_sequence (PyStr s)))
               = [InvalidBases (sorted_list_of_set ?bad)]"
    using assms ne by (simp add: validate_rna_sequence_str Let_def)
  have inval: "fst (validate_rna_sequence (PyStr s)) = False"
    using assms ne by (simp add: validate_rna_sequence_str Let_def)
  show ?thesis using flt inval props by blast
qed

theorem alphabet_error_once_witness:
  "fst (validate_rna_sequence (PyStr ''AUGX'')) = False \<and>
   (\<exists>cs. filter is_invalid_bases (snd (validate_rna_sequence (PyStr ''AUGX''))) = [InvalidBases cs]
         \<and> sorted cs \<and> distinct cs \<and> set cs = set (upper (strip ''AUGX'')) - valid_bases)"
proof -
  have h: "set (upper (strip ''AUGX'')) - valid_bases \<noteq> {}"
    by (simp add: strip_AUGX upper_AUGX valid_bases_def)
  show ?thesis by (rule alphabet_error_once [OF h])
qed

text \<open>
  C8. For an input that is \<open>None\<close>, is not a string, or is empty once trimmed, the
  validator returns false with exactly one error, the one of the early return taken: no
  length, alphabet, repeat or composition error is added.
\<close>

theorem validate_input_shape_errors:
  assumes "x = PyNone \<or> x = PyOther \<or> (\<exists>s. x = PyStr s \<and> strip s = [])"
  shows "validate_rna_sequence x =
           (False, [case x of PyNone \<Rightarrow> SeqIsNone | PyOther \<Rightarrow> SeqNotString | PyStr s \<Rightarrow> SeqEmpty])"
  using assms by (auto simp add: validate_rna_sequence_def)

theorem validate_input_shape_errors_witness:
  "strip '' '' = [] \<and> validate_rna_sequence (PyStr '' '') = (False, [SeqEmpty])"
proof -
  have h: "strip '' '' = []" by (simp add: strip_def isspace_def)
  then have "PyStr '' '' = PyNone \<or> PyStr '' '' = PyOther
             \<or> (\<exists>s. PyStr '' '' = PyStr s \<and> strip s = [])"
    by simp
  from validate_input_shape_errors [OF this] h show ?thesis by simp
qed

text \<open>
  C9. The error list of the validator never holds the error of a GC content out of
  range, for any input: the GC content of every sequence lies between 0 and 1.
\<close>

theorem gc_range_error_unreachable:
  "GCOutOfRange g lo hi \<notin> set (snd (validate_rna_sequence x)) \<and>
   0 \<le> calculate_gc_content s \<and> calculate_gc_content s \<le> 1"
proof -
  have "GCOutOfRange g lo hi \<notin> set (snd (validate_rna_sequence x))"
  proof (cases x)
    case (PyStr t)
    show ?thesis
    proof (cases "strip t = []")
      case True
      then show ?thesis by (simp add: PyStr validate_rna_sequence_def)
    next
      case False
      then show ?thesis by (simp add: PyStr validate_rna_sequence_str Let_def)
    qed
  qed (simp_all add: validate_rna_sequence_def)
  then show ?thesis using calculate_gc_content_range [of s] by simp
qed

section \<open>Counting bases\<close>

lemma count_bases_filter:
  "count_list s CHR ''A'' + count_list s CHR ''U'' + count_list s CHR ''G'' + count_list s CHR ''C''
     = length (filter (\<lambda>c. c \<in> valid_bases) s)"
  by (induction s) (auto simp: valid_bases_simp)

lemma count_bases_conformant:
  "set s \<subseteq> valid_bases \<Longrightarrow>
   count_list s CHR ''A'' + count_list s CHR ''U'' + count_list s CHR ''G'' + count_list s CHR ''C''
     = length s"
  by (simp add: count_bases_filter subset_iff)

lemma count_bases_less:
  assumes "x \<in> set s" and "x \<notin> valid_bases"
  shows "count_list s CHR ''A'' + count_list s CHR ''U'' + count_list s CHR ''G'' + count_list s CHR ''C''
     < length s"
  using assms length_filter_less [of x s "\<lambda>c. c \<in> valid_bases"] by (simp add: count_bases_filter)

text \<open>The statistics of a non-empty string, with the local variables of the source unfolded.\<close>

lemma get_sequence_statistics_Some:
  assumes "s \<noteq> []"
  shows "get_sequence_statistics s = Some
     \<lparr> stat_length = length (upper s),
       base_counts = [(CHR ''A'', count_list (upper s) CHR ''A''),
                      (CHR ''U'', count_list (upper s) CHR ''U''),
                      (CHR ''G'', count_list (upper s) CHR ''G''),
                      (CHR ''C'', count_list (upper s) CHR ''C'')],
       base_frequencies =
                     [(CHR ''A'', float_div (count_list (upper s) CHR ''A'') (length (upper s))),
                      (CHR ''U'', float_div (count_list (upper s) CHR ''U'') (length (upper s))),
                      (CHR ''G'', float_div (count_list (upper s) CHR ''G'') (length (upper s))),
                      (CHR ''C'', float_div (count_list (upper s) CHR ''C'') (length (upper s)))],
       gc_content = float_div (count_list (upper s) CHR ''G'' + count_list (upper s) CHR ''C'')
                      (length (upper s)),
       au_content = float_div (count_list (upper s) CHR ''A'' + count_list (upper s) CHR ''U'')
                      (length (upper s)),
       max_repeat_length = check_repetitive_sequence (upper s) \<rparr>"
  using assms by (simp add: get_sequence_statistics_def Let_def upper_eq_Nil)

section \<open>Whitespace\<close>

lemma upper_char_space: "isspace c \<Longrightarrow> upper_char c = c"
proof -
  have "upper_char CHR 0x09 = CHR 0x09" "upper_char CHR 0x0A = CHR 0x0A"
       "upper_char CHR 0x0B = CHR 0x0B" "upper_char CHR 0x0C = CHR 0x0C"
       "upper_char CHR 0x0D = CHR 0x0D" "upper_char CHR 0x1C = CHR 0x1C"
       "upper_char CHR 0x1D = CHR 0x1D" "upper_char CHR 0x1E = CHR 0x1E"
       "upper_char CHR 0x1F = CHR 0x1F" "upper_char CHR 0x20 = CHR 0x20"
    by (simp_all add: upper_char_def)
  then show "isspace c \<Longrightarrow> upper_char c = c"
    by (auto simp: isspace_def)
qed

lemma space_in_upper:
  assumes "c \<in> set s" and "isspace c"
  shows "c \<in> set (upper s)"
proof -
  have "upper_char c \<in> set (upper s)" using assms(1) by (simp add: upper_def)
  then show ?thesis using assms(2) by (simp add: upper_char_space)
qed

lemma length_filter_disjoint:
  "(\<And>x. P x \<Longrightarrow> \<not> Q x) \<Longrightarrow> length (filter P xs) + length (filter Q xs) \<le> length xs"
  by (induction xs) auto

lemma upper_space_augc: "upper '' augc'' = '' AUGC''"
  by (simp add: upper_def upper_char_def)

section \<open>Rounding to binary64\<close>

lemma round_half_even_err: "\<bar>of_int (round_half_even r) - r\<bar> \<le> 1 / 2"
proof -
  have lo: "of_int \<lfloor>r\<rfloor> \<le> r" and hi: "r < of_int \<lfloor>r\<rfloor> + 1" by linarith+
  show ?thesis
    using lo hi unfolding round_half_even_def Let_def by (simp add: abs_le_iff)
qed

lemma round_half_even_eq:
  assumes "of_int n - 1 / 2 \<le> r" and "r \<le> of_int n + 1 / 2" and "even n"
  shows "round_half_even r = n"
proof (cases "r < of_int n")
  case True
  then have fl: "\<lfloor>r\<rfloor> = n - 1" using assms(1) by (simp add: floor_unique)
  have odd: "odd (n - 1)" using assms(3) by simp
  show ?thesis using assms(1) odd unfolding round_half_even_def Let_def fl by auto
next
  case False
  then have fl: "\<lfloor>r\<rfloor> = n" using assms(2) by (simp add: floor_unique)
  show ?thesis using assms(2,3) unfolding round_half_even_def Let_def fl by auto
qed

lemma round_half_even_of_int: "round_half_even (of_int n) = n"
  by (simp add: round_half_even_def)

lemma exp_down_ge: "k \<le> exp_down fuel k x"
proof (induction fuel arbitrary: k)
  case 0
  show ?case by simp
next
  case (Suc fuel)
  show ?case using Suc [of "Suc k"] by simp
qed

lemma quantum_pos: "0 < quantum x"
  by (simp add: quantum_def)

lemma quantum_half: "1 / 2 \<le> x \<Longrightarrow> x < 1 \<Longrightarrow> quantum x = 1 / 2 ^ 53"
proof -
  assume a: "1 / 2 \<le> x" "x < 1"
  have "exp_down 1021 1 x = exp_down (Suc 1020) 1 x" by simp
  also have "\<dots> = 1" using a(1) by (simp only: exp_down.simps) simp
  finally show ?thesis using a(2) by (simp add: quantum_def)
qed

lemma quantum_one: "1 \<le> x \<Longrightarrow> x < 2 \<Longrightarrow> quantum x = 1 / 2 ^ 52"
proof -
  assume a: "1 \<le> x" "x < 2"
  have "exp_up 1023 0 x = exp_up (Suc 1022) 0 x" by simp
  also have "\<dots> = 0" using a(2) by (simp only: exp_up.simps) simp
  finally show ?thesis using a(1) by (simp add: quantum_def)
qed

text \<open>Below one half the doubles are at least four times as dense as just below 1.\<close>

lemma quantum_small:
  assumes "x < 1 / 2"
  shows "\<exists>j. 54 \<le> j \<and> quantum x = 1 / 2 ^ j"
proof -
  have "exp_down 1021 1 x = exp_down (Suc 1020) 1 x" by simp
  also have "\<dots> = exp_down 1020 (Suc 1) x" using assms by (simp only: exp_down.simps) simp
  finally have "2 \<le> exp_down 1021 1 x" using exp_down_ge [of "Suc 1" 1020 x] by simp
  then have "54 \<le> exp_down 1021 1 x + 52" by simp
  moreover have "quantum x = 1 / 2 ^ (exp_down 1021 1 x + 52)"
    using assms by (simp add: quantum_def)
  ultimately show ?thesis by blast
qed

lemma quantum_le: "x < 1 \<Longrightarrow> quantum x \<le> 1 / 2 ^ 53"
proof -
  assume a: "x < 1"
  have "1 \<le> exp_down 1021 1 x" by (rule exp_down_ge)
  then have "(2::rat) ^ 53 \<le> 2 ^ (exp_down 1021 1 x + 52)"
    by (intro power_increasing) simp_all
  then show ?thesis using a by (simp add: quantum_def frac_le)
qed

text \<open>Rounding moves a number by at most half the spacing of the doubles around it.\<close>

lemma round_b64_err: "\<bar>round_b64 x - x\<bar> \<le> quantum x / 2"
proof -
  let ?q = "quantum x"
  have q: "0 < ?q" by (rule quantum_pos)
  have "\<bar>of_int (round_half_even (x / ?q)) - x / ?q\<bar> \<le> 1 / 2"
    by (rule round_half_even_err)
  then have "\<bar>of_int (round_half_even (x / ?q)) - x / ?q\<bar> * ?q \<le> 1 / 2 * ?q"
    using q by (intro mult_right_mono) simp_all
  moreover have "\<bar>round_b64 x - x\<bar> = \<bar>of_int (round_half_even (x / ?q)) - x / ?q\<bar> * ?q"
  proof -
    have "round_b64 x - x = (of_int (round_half_even (x / ?q)) - x / ?q) * ?q"
      using q by (simp add: round_b64_def left_diff_distrib)
    then have "\<bar>round_b64 x - x\<bar> = \<bar>of_int (round_half_even (x / ?q)) - x / ?q\<bar> * \<bar>?q\<bar>"
      by (simp only: abs_mult)
    then show ?thesis using q by simp
  qed
  ultimately show ?thesis by simp
qed

lemma round_b64_0: "round_b64 0 = 0"
  using round_half_even_of_int [of 0] by (simp add: round_b64_def)

lemma round_b64_1: "round_b64 1 = 1"
proof -
  have q: "quantum 1 = 1 / 2 ^ 52" by (rule quantum_one) simp_all
  have "round_half_even (1 / quantum 1) = 2 ^ 52"
    using round_half_even_of_int [of "2 ^ 52"] by (simp add: q)
  then show ?thesis by (simp add: round_b64_def q)
qed

lemma round_b64_half: "round_b64 (1 / 2) = 1 / 2"
proof -
  have q: "quantum (1 / 2) = 1 / 2 ^ 53" by (rule quantum_half) simp_all
  have "round_half_even (1 / 2 / quantum (1 / 2)) = 2 ^ 52"
    using round_half_even_of_int [of "2 ^ 52"] by (simp add: q)
  then show ?thesis by (simp add: round_b64_def q)
qed

lemma round_b64_unit_err:
  assumes "x \<le> 1"
  shows "\<bar>round_b64 x - x\<bar> \<le> 1 / 2 ^ 54"
proof (cases "x = 1")
  case True
  then show ?thesis by (simp add: round_b64_1)
next
  case False
  with assms have "x < 1" by simp
  then have "quantum x \<le> 1 / 2 ^ 53" by (rule quantum_le)
  with round_b64_err [of x] show ?thesis by simp
qed

lemma round_b64_two_err:
  assumes "x < 2"
  shows "\<bar>round_b64 x - x\<bar> \<le> 1 / 2 ^ 53"
proof (cases "x < 1")
  case True
  then have "quantum x \<le> 1 / 2 ^ 53" by (rule quantum_le)
  with round_b64_err [of x] show ?thesis by simp
next
  case False
  then have "quantum x = 1 / 2 ^ 52" using assms by (intro quantum_one) simp_all
  with round_b64_err [of x] show ?thesis by simp
qed

text \<open>Every number from \<open>1 - 2 ^ (- 54)\<close> to \<open>1 + 2 ^ (- 53)\<close> rounds to 1.\<close>

lemma round_b64_near_one:
  assumes "1 - 1 / 2 ^ 54 \<le> s" and "s \<le> 1 + 1 / 2 ^ 53"
  shows "round_b64 s = 1"
proof (cases "1 \<le> s")
  case True
  have q: "quantum s = 1 / 2 ^ 52" using True assms(2) by (intro quantum_one) simp_all
  have "round_half_even (s / quantum s) = 2 ^ 52"
    using True assms(2) by (intro round_half_even_eq) (simp_all add: q)
  then show ?thesis by (simp add: round_b64_def q)
next
  case False
  have q: "quantum s = 1 / 2 ^ 53" using False assms(1) by (intro quantum_half) simp_all
  have "round_half_even (s / quantum s) = 2 ^ 53"
    using False assms(1) by (intro round_half_even_eq) (simp_all add: q)
  then show ?thesis by (simp add: round_b64_def q)
qed

lemma round_sum_upper:
  assumes "x \<le> 1" and "y \<le> 1" and "x + y = 1"
  shows "round_b64 x + round_b64 y \<le> 1 + 1 / 2 ^ 53"
proof -
  have "round_b64 x \<le> x + 1 / 2 ^ 54" using round_b64_unit_err [OF assms(1)] by linarith
  moreover have "round_b64 y \<le> y + 1 / 2 ^ 54" using round_b64_unit_err [OF assms(2)] by linarith
  ultimately have "round_b64 x + round_b64 y \<le> (x + y) + (1 / 2 ^ 54 + 1 / 2 ^ 54)" by linarith
  then show ?thesis by (simp add: assms(3))
qed

text \<open>
  The two rounded parts of 1 cannot both fall short by much: the rounded smaller part
  is a multiple of a spacing that divides \<open>2 ^ (- 54)\<close>, so the larger part lies within
  half that spacing of such a multiple, and its own rounding to a multiple of
  \<open>2 ^ (- 53)\<close> loses at most \<open>2 ^ (- 54)\<close> against that multiple.
\<close>

lemma round_sum_lower:
  assumes "0 < x" and "x < 1 / 2"
  shows "1 - 1 / 2 ^ 54 \<le> round_b64 x + round_b64 (1 - x)"
proof -
  obtain j where j: "54 \<le> j" "quantum x = 1 / 2 ^ j"
    using quantum_small [OF assms(2)] by blast
  define m where "m = j - 54"
  define T :: rat where "T = 2 ^ m"
  define Ti :: int where "Ti = 2 ^ m"
  have Tpos: "0 < T" by (simp add: T_def)
  have TTi: "of_int Ti = T" by (simp add: T_def Ti_def)
  have "j = 54 + m" using j(1) by (simp add: m_def)
  then have qx: "quantum x = 1 / (2 ^ 54 * T)" by (simp only: j(2) T_def power_add)
  have qy: "quantum (1 - x) = 1 / 2 ^ 53" using assms by (intro quantum_half) simp_all
  define M where "M = round_half_even (x / quantum x)"
  define N where "N = round_half_even ((1 - x) / quantum (1 - x))"
  have rx: "round_b64 x = of_int M / (2 ^ 54 * T)" by (simp add: round_b64_def M_def qx)
  have ry: "round_b64 (1 - x) = of_int N / 2 ^ 53" by (simp add: round_b64_def N_def qy)
  have eM: "\<bar>of_int M - x * (2 ^ 54 * T)\<bar> \<le> 1 / 2"
    using round_half_even_err [of "x / quantum x"] by (simp add: M_def qx)
  have eN: "\<bar>of_int N - (1 - x) * 2 ^ 53\<bar> \<le> 1 / 2"
    using round_half_even_err [of "(1 - x) / quantum (1 - x)"] by (simp add: N_def qy)
  have "(1 - x) * 2 ^ 53 - 1 / 2 \<le> of_int N" using eN by linarith
  then have "((1 - x) * 2 ^ 53 - 1 / 2) * (2 * T) \<le> of_int N * (2 * T)"
    using Tpos by (intro mult_right_mono) simp_all
  then have b: "2 ^ 54 * T - x * (2 ^ 54 * T) - T \<le> of_int N * (2 * T)"
    by (simp add: algebra_simps)
  have c: "x * (2 ^ 54 * T) \<le> of_int M + 1 / 2" using eM by linarith
  have "(of_int (2 ^ 54 * Ti - Ti - 1) :: rat) < of_int (N * (2 * Ti) + M)"
    using b c by (simp add: TTi)
  then have "2 ^ 54 * Ti - Ti - 1 < N * (2 * Ti) + M" by (simp only: of_int_less_iff)
  then have "2 ^ 54 * Ti - Ti \<le> N * (2 * Ti) + M" by linarith
  then have "(of_int (2 ^ 54 * Ti - Ti) :: rat) \<le> of_int (N * (2 * Ti) + M)"
    by (simp only: of_int_le_iff)
  then have d: "2 ^ 54 * T - T \<le> of_int N * (2 * T) + of_int M" by (simp add: TTi)
  have "(2 ^ 54 * T - T) / (2 ^ 54 * T) \<le> (of_int N * (2 * T) + of_int M) / (2 ^ 54 * T)"
    using d Tpos by (intro divide_right_mono) simp_all
  moreover have "(2 ^ 54 * T - T) / (2 ^ 54 * T) = 1 - 1 / 2 ^ 54"
    using Tpos by (simp add: field_simps)
  moreover have "(of_int N * (2 * T) + of_int M) / (2 ^ 54 * T) = round_b64 x + round_b64 (1 - x)"
    using Tpos by (simp add: rx ry field_simps)
  ultimately show ?thesis by simp
qed

text \<open>Hence the binary64 sum of the two rounded parts of 1 is exactly 1.\<close>

lemma float_add_complement:
  assumes "0 \<le> x" and "x \<le> 1"
  shows "float_add (round_b64 x) (round_b64 (1 - x)) = 1"
proof -
  have lower: "1 - 1 / 2 ^ 54 \<le> round_b64 x + round_b64 (1 - x)"
  proof -
    consider "x = 0" | "0 < x" "x < 1 / 2" | "x = 1 / 2" | "1 / 2 < x" "x < 1" | "x = 1"
      using assms by linarith
    then show ?thesis
    proof cases
      case 1
      then show ?thesis by (simp add: round_b64_0 round_b64_1)
    next
      case 2
      then show ?thesis by (rule round_sum_lower)
    next
      case 3
      show ?thesis by (simp only: 3) (simp add: round_b64_half)
    next
      case 4
      then have "0 < 1 - x" "1 - x < 1 / 2" by simp_all
      from round_sum_lower [OF this] show ?thesis by (simp add: add.commute)
    next
      case 5
      then show ?thesis by (simp add: round_b64_0 round_b64_1)
    qed
  qed
  have upper: "round_b64 x + round_b64 (1 - x) \<le> 1 + 1 / 2 ^ 53"
    using assms by (intro round_sum_upper) simp_all
  show ?thesis unfolding float_add_def using lower upper by (rule round_b64_near_one)
qed

text \<open>
  Four rounded parts of 1 add up to 1 within \<open>2 ^ (- 52)\<close>, and within \<open>2 ^ (- 50)\<close>
  when they are added from left to right in binary64, starting from 0.
\<close>

lemma round_parts_sum:
  assumes "x1 \<le> 1" "x2 \<le> 1" "x3 \<le> 1" "x4 \<le> 1" and "x1 + x2 + x3 + x4 = 1"
  shows "\<bar>round_b64 x1 + round_b64 x2 + round_b64 x3 + round_b64 x4 - 1\<bar> \<le> 1 / 2 ^ 52"
proof -
  define e :: rat where "e = 1 / 2 ^ 54"
  have e: "4 * e = 1 / 2 ^ 52" by (simp add: e_def)
  have "\<bar>round_b64 x1 - x1\<bar> \<le> e" "\<bar>round_b64 x2 - x2\<bar> \<le> e"
       "\<bar>round_b64 x3 - x3\<bar> \<le> e" "\<bar>round_b64 x4 - x4\<bar> \<le> e"
    unfolding e_def using assms(1-4) by (simp_all only: round_b64_unit_err)
  then have "\<bar>round_b64 x1 + round_b64 x2 + round_b64 x3 + round_b64 x4 - 1\<bar> \<le> 4 * e"
    using assms(5) by linarith
  then show ?thesis by (simp only: e)
qed

lemma float_add_parts_sum:
  assumes "0 \<le> x1" "0 \<le> x2" "0 \<le> x3" "0 \<le> x4" and "x1 + x2 + x3 + x4 = 1"
  shows "\<bar>foldl float_add 0 [round_b64 x1, round_b64 x2, round_b64 x3, round_b64 x4] - 1\<bar>
           \<le> 1 / 2 ^ 50"
proof -
  define e :: rat where "e = 1 / 2 ^ 54"
  have epos: "0 < e" and esmall: "e \<le> 1 / 100" by (simp_all add: e_def)
  have e2: "1 / 2 ^ 53 = 2 * e" and e16: "16 * e = 1 / 2 ^ 50" by (simp_all add: e_def)
  have le1: "x1 \<le> 1" "x2 \<le> 1" "x3 \<le> 1" "x4 \<le> 1" using assms by linarith+
  define f1 f2 f3 f4 where "f1 = round_b64 x1" and "f2 = round_b64 x2"
    and "f3 = round_b64 x3" and "f4 = round_b64 x4"
  have f: "\<bar>f1 - x1\<bar> \<le> e" "\<bar>f2 - x2\<bar> \<le> e" "\<bar>f3 - x3\<bar> \<le> e" "\<bar>f4 - x4\<bar> \<le> e"
    unfolding e_def f1_def f2_def f3_def f4_def using le1 by (simp_all only: round_b64_unit_err)
  define p1 p2 p3 p4 where "p1 = round_b64 (0 + f1)" and "p2 = round_b64 (p1 + f2)"
    and "p3 = round_b64 (p2 + f3)" and "p4 = round_b64 (p3 + f4)"
  have "0 + f1 < 2" using f(1) le1(1) esmall by linarith
  then have p1: "\<bar>p1 - (0 + f1)\<bar> \<le> 2 * e"
    unfolding p1_def e2 [symmetric] by (rule round_b64_two_err)
  have "p1 + f2 < 2" using p1 f assms esmall by linarith
  then have p2: "\<bar>p2 - (p1 + f2)\<bar> \<le> 2 * e"
    unfolding p2_def e2 [symmetric] by (rule round_b64_two_err)
  have "p2 + f3 < 2" using p1 p2 f assms esmall by linarith
  then have p3: "\<bar>p3 - (p2 + f3)\<bar> \<le> 2 * e"
    unfolding p3_def e2 [symmetric] by (rule round_b64_two_err)
  have "p3 + f4 < 2" using p1 p2 p3 f assms esmall by linarith
  then have p4: "\<bar>p4 - (p3 + f4)\<bar> \<le> 2 * e"
    unfolding p4_def e2 [symmetric] by (rule round_b64_two_err)
  have "\<bar>p4 - 1\<bar> \<le> 16 * e" using p1 p2 p3 p4 f assms(5) epos by linarith
  moreover have "foldl float_add 0 [round_b64 x1, round_b64 x2, round_b64 x3, round_b64 x4] = p4"
    by (simp add: float_add_def p1_def p2_def p3_def p4_def f1_def f2_def f3_def f4_def)
  ultimately show ?thesis by (simp only: e16)
qed

text \<open>The quotients of the counts of a sequence are such parts.\<close>

lemma of_nat_parts:
  assumes "a + u + g + c = n" and "0 < n"
  shows "(of_nat a / of_nat n + of_nat u / of_nat n + of_nat g / of_nat n + of_nat c / of_nat n :: rat) = 1"
    and "(of_nat (a + u) / of_nat n :: rat) = 1 - of_nat (g + c) / of_nat n"
    and "(0::rat) \<le> of_nat (g + c) / of_nat n" and "(of_nat (g + c) / of_nat n :: rat) \<le> 1"
proof -
  have n: "(of_nat n :: rat) \<noteq> 0" using assms(2) by simp
  have tot: "(of_nat a + of_nat u + of_nat g + of_nat c :: rat) = of_nat n"
    using assms(1) by (metis of_nat_add)
  show "(of_nat a / of_nat n + of_nat u / of_nat n + of_nat g / of_nat n + of_nat c / of_nat n :: rat) = 1"
    using n tot by (simp add: add_divide_distrib [symmetric])
  have "(of_nat (a + u) :: rat) = of_nat n - of_nat (g + c)" using tot by simp
  then show "(of_nat (a + u) / of_nat n :: rat) = 1 - of_nat (g + c) / of_nat n"
    using n by (simp add: diff_divide_distrib)
  show "(0::rat) \<le> of_nat (g + c) / of_nat n" by simp
  have "g + c \<le> n" using assms(1) by simp
  then have "(of_nat (g + c) :: rat) \<le> of_nat n" by (simp only: of_nat_le_iff)
  then show "(of_nat (g + c) / of_nat n :: rat) \<le> 1" using assms(2) by (simp add: divide_le_eq_1)
qed

text \<open>
  The tolerance is needed: the exact sum of the four frequencies of \<open>UGGGGC\<close>, the
  doubles nearest to 0, 1/6, 4/6 and 1/6, is \<open>1 - 2 ^ (- 54)\<close>.
\<close>

lemma round_half_even_near:
  assumes "of_int n - 1 / 2 < r" and "r < of_int n + 1 / 2"
  shows "round_half_even r = n"
proof (cases "r < of_int n")
  case True
  then have fl: "\<lfloor>r\<rfloor> = n - 1" using assms(1) by (simp add: floor_unique)
  show ?thesis using assms(1) unfolding round_half_even_def Let_def fl by auto
next
  case False
  then have fl: "\<lfloor>r\<rfloor> = n" using assms(2) by (simp add: floor_unique)
  show ?thesis using assms(2) unfolding round_half_even_def Let_def fl by auto
qed

lemma round_third: "round_half_even (18014398509481984 / 3) = 6004799503160661"
  by (rule round_half_even_near) simp_all

lemma exp_down_sixth: "exp_down 1021 (Suc 0) (1 / 6) = 3"
proof -
  have "exp_down 1021 (Suc 0) (1 / 6) = exp_down (Suc (Suc (Suc 1018))) (Suc 0) (1 / 6)" by simp
  also have "\<dots> = 3" by (simp only: exp_down.simps) simp
  finally show ?thesis .
qed

lemma round_b64_sixth: "round_b64 (1 / 6) = 6004799503160661 / 2 ^ 55"
proof -
  have q: "quantum (1 / 6) = 1 / 2 ^ 55" by (simp add: quantum_def exp_down_sixth)
  have "round_half_even (1 / 6 / (1 / 2 ^ 55)) = 6004799503160661"
    using round_third by simp
  then show ?thesis by (simp add: round_b64_def q)
qed

lemma round_b64_two_thirds: "round_b64 (2 / 3) = 6004799503160661 / 2 ^ 53"
proof -
  have q: "quantum (2 / 3) = 1 / 2 ^ 53" by (rule quantum_half) simp_all
  have "round_half_even (2 / 3 / (1 / 2 ^ 53)) = 6004799503160661"
    using round_third by simp
  then show ?thesis by (simp add: round_b64_def q)
qed

lemma frequencies_UGGGGC:
  "\<exists>st. get_sequence_statistics ''UGGGGC'' = Some st
        \<and> sum_list (map snd (base_frequencies st)) = 1 - 1 / 2 ^ 54"
proof -
  have u: "upper ''UGGGGC'' = ''UGGGGC''" by (rule upper_valid) (simp add: valid_bases_def)
  have "''UGGGGC'' \<noteq> []" by simp
  from get_sequence_statistics_Some [OF this] show ?thesis
    by (simp add: u float_div_def round_b64_0 round_b64_sixth round_b64_two_thirds)
qed

section \<open>Claims about the statistics\<close>

text \<open>
  C6. For a non-empty sequence over A, U, G, C the statistics are defined and the four
  base counts sum to the length. The four base frequencies, each a binary64 quotient,
  sum to 1 within floating tolerance: their exact sum is within \<open>2 ^ (- 52)\<close> of 1, and
  their sum added from left to right in binary64 is within \<open>2 ^ (- 50)\<close> of 1. The GC
  content and the AU content add up, in binary64, to exactly 1.
\<close>

theorem statistics_count_conservation:
  assumes "s \<noteq> []" and "set s \<subseteq> valid_bases"
  shows "\<exists>st. get_sequence_statistics s = Some st
          \<and> sum_list (map snd (base_counts st)) = stat_length st
          \<and> stat_length st = length s
          \<and> \<bar>sum_list (map snd (base_frequencies st)) - 1\<bar> \<le> 1 / 2 ^ 52
          \<and> \<bar>foldl float_add 0 (map snd (base_frequencies st)) - 1\<bar> \<le> 1 / 2 ^ 50
          \<and> float_add (gc_content st) (au_content st) = 1"
proof -
  let ?a = "count_list s CHR ''A''" and ?u = "count_list s CHR ''U''"
  let ?g = "count_list s CHR ''G''" and ?c = "count_list s CHR ''C''"
  let ?n = "length s"
  have up: "upper s = s" using assms(2) by (rule upper_valid)
  have tot: "?a + ?u + ?g + ?c = ?n"
    using assms(2) by (rule count_bases_conformant)
  have n: "0 < ?n" using assms(1) by simp
  note parts = of_nat_parts [OF tot n]
  have le: "(of_nat ?a / of_nat ?n :: rat) \<le> 1" "(of_nat ?u / of_nat ?n :: rat) \<le> 1"
           "(of_nat ?g / of_nat ?n :: rat) \<le> 1" "(of_nat ?c / of_nat ?n :: rat) \<le> 1"
    using tot n by (simp_all add: divide_le_eq_1)
  have ge: "(0::rat) \<le> of_nat ?a / of_nat ?n" "(0::rat) \<le> of_nat ?u / of_nat ?n"
           "(0::rat) \<le> of_nat ?g / of_nat ?n" "(0::rat) \<le> of_nat ?c / of_nat ?n"
    by simp_all
  have exact: "\<bar>float_div ?a ?n + float_div ?u ?n + float_div ?g ?n + float_div ?c ?n - 1\<bar>
                 \<le> 1 / 2 ^ 52"
    unfolding float_div_def by (rule round_parts_sum [OF le parts(1)])
  have loop: "\<bar>foldl float_add 0 [float_div ?a ?n, float_div ?u ?n, float_div ?g ?n, float_div ?c ?n] - 1\<bar>
                 \<le> 1 / 2 ^ 50"
    unfolding float_div_def by (rule float_add_parts_sum [OF ge parts(1)])
  have gcau: "float_add (float_div (?g + ?c) ?n) (float_div (?a + ?u) ?n) = 1"
    unfolding float_div_def parts(2) by (rule float_add_complement [OF parts(3,4)])
  have sum4: "sum_list [float_div ?a ?n, float_div ?u ?n, float_div ?g ?n, float_div ?c ?n]
                = float_div ?a ?n + float_div ?u ?n + float_div ?g ?n + float_div ?c ?n"
    by simp
  show ?thesis
    using tot exact loop gcau
    by (simp only: get_sequence_statistics_Some [OF assms(1)] up sum4 [symmetric]) simp
qed

theorem statistics_count_conservation_witness:
  "\<exists>st. get_sequence_statistics ''UGGGGC'' = Some st
          \<and> sum_list (map snd (base_counts st)) = stat_length st
          \<and> stat_length st = length ''UGGGGC''
          \<and> \<bar>sum_list (map snd (base_frequencies st)) - 1\<bar> \<le> 1 / 2 ^ 52
          \<and> \<bar>foldl float_add 0 (map snd (base_frequencies st)) - 1\<bar> \<le> 1 / 2 ^ 50
          \<and> float_add (gc_content st) (au_content st) = 1"
proof -
  have a: "''UGGGGC'' \<noteq> []" by simp
  have b: "set ''UGGGGC'' \<subseteq> valid_bases" by (simp add: valid_bases_def)
  show ?thesis by (rule statistics_count_conservation [OF a b])
qed

text \<open>
  C10. The statistics put their input in upper case and do not trim it: for a non-empty
  string that starts or ends with whitespace, the reported length is the length of the
  whole string in upper case, the four base counts are the counts of A, U, G, C in that
  string, the whitespace characters are part of the reported length on top of the
  counted bases, and so the base counts sum to strictly less than the reported length,
  whatever the other characters.
\<close>

theorem statistics_counts_whitespace:
  assumes "s \<noteq> []" and "isspace (hd s) \<or> isspace (last s)"
  shows "\<exists>st. get_sequence_statistics s = Some st
          \<and> stat_length st = length (upper s)
          \<and> base_counts st = [(CHR ''A'', count_list (upper s) CHR ''A''),
                               (CHR ''U'', count_list (upper s) CHR ''U''),
                               (CHR ''G'', count_list (upper s) CHR ''G''),
                               (CHR ''C'', count_list (upper s) CHR ''C'')]
          \<and> 0 < length (filter isspace (upper s))
          \<and> sum_list (map snd (base_counts st)) + length (filter isspace (upper s))
                \<le> stat_length st
          \<and> sum_list (map snd (base_counts st)) < stat_length st"
proof -
  from assms obtain c where c: "c \<in> set s" "isspace c"
    using hd_in_set last_in_set by blast
  have "c \<in> set (upper s)" using c by (rule space_in_upper)
  then have "c \<in> set (filter isspace (upper s))" using c(2) by simp
  then have sp: "0 < length (filter isspace (upper s))" by (simp only: length_pos_if_in_set)
  have "length (filter (\<lambda>c. c \<in> valid_bases) (upper s)) + length (filter isspace (upper s))
          \<le> length (upper s)"
    by (rule length_filter_disjoint) (rule isspace_not_valid)
  then have le: "count_list (upper s) CHR ''A'' + count_list (upper s) CHR ''U''
       + count_list (upper s) CHR ''G'' + count_list (upper s) CHR ''C''
       + length (filter isspace (upper s)) \<le> length (upper s)"
    by (simp only: count_bases_filter)
  from sp le have lt: "count_list (upper s) CHR ''A'' + count_list (upper s) CHR ''U''
       + count_list (upper s) CHR ''G'' + count_list (upper s) CHR ''C'' < length (upper s)"
    by linarith
  show ?thesis
    using sp le lt by (simp add: get_sequence_statistics_Some [OF assms(1)])
qed

theorem statistics_counts_whitespace_witness:
  "\<exists>st. get_sequence_statistics '' augc'' = Some st
          \<and> stat_length st = 5
          \<and> base_counts st = [(CHR ''A'', 1), (CHR ''U'', 1), (CHR ''G'', 1), (CHR ''C'', 1)]
          \<and> sum_list (map snd (base_counts st)) < stat_length st"
proof -
  have a: "'' augc'' \<noteq> []" by simp
  have b: "isspace (hd '' augc'') \<or> isspace (last '' augc'')" by (simp add: isspace_def)
  from statistics_counts_whitespace [OF a b] show ?thesis
    by (simp only: upper_space_augc) auto
qed

section \<open>Counting dinucleotides\<close>

lemma length_dimers: "length dimers = 10"
  by (simp add: dimers_def)

lemma dimers_length2: "k < 10 \<Longrightarrow> length (dimers ! k) = 2"
proof -
  have "\<forall>d \<in> set dimers. length d = 2" by (simp add: dimers_def)
  then show "k < 10 \<Longrightarrow> length (dimers ! k) = 2" by (simp add: length_dimers)
qed

lemma fold_count:
  "fold (\<lambda>i count. if P i then count + 1 else count) xs (a::nat) = a + length (filter P xs)"
  by (induction xs arbitrary: a) simp_all

lemma dimer_count_filter:
  "dimer_count s d = length (filter (\<lambda>i. take 2 (drop i s) = d) [0 ..< length s - 1])"
  by (simp add: dimer_count_def fold_count)

lemma dimer_count_le: "dimer_count s d \<le> length s - 1"
  using length_filter_le [of "\<lambda>i. take 2 (drop i s) = d" "[0 ..< length s - 1]"]
  by (simp add: dimer_count_filter)

lemma length_filter_upt: "length (filter P [0 ..< n]) = card {i. i < n \<and> P i}"
proof -
  have "card (set (filter P [0 ..< n])) = length (filter P [0 ..< n])"
    by (rule distinct_card) simp
  moreover have "set (filter P [0 ..< n]) = {i. i < n \<and> P i}" by auto
  ultimately show ?thesis by simp
qed

text \<open>The slice at the last position has one character, so it is no pair.\<close>

lemma dimer_positions:
  assumes "length d = 2"
  shows "{i. i < length s - 1 \<and> take 2 (drop i s) = d} = {i. i < length s \<and> take 2 (drop i s) = d}"
proof -
  have "i < length s - 1" if "i < length s" and "take 2 (drop i s) = d" for i
  proof (rule ccontr)
    assume "\<not> i < length s - 1"
    then have "length (take 2 (drop i s)) \<le> 1" using that(1) by simp
    then show False using that(2) assms by simp
  qed
  then show ?thesis by auto
qed

lemma dimer_count_card:
  "length d = 2 \<Longrightarrow> dimer_count s d = card {i. i < length s \<and> take 2 (drop i s) = d}"
  by (simp only: dimer_count_filter length_filter_upt dimer_positions)

lemma dimer_freq_range: "0 \<le> dimer_freq s d \<and> dimer_freq s d \<le> 1"
proof (cases "1 < length s")
  case True
  then have pos: "0 < (of_nat (length s - 1) :: rat)" by simp
  have "(of_nat (dimer_count s d) :: rat) \<le> of_nat (length s - 1)"
    using dimer_count_le [of s d] by (simp only: of_nat_le_iff)
  with pos True show ?thesis by (simp add: dimer_freq_def divide_le_eq_1)
next
  case False
  then show ?thesis by (simp add: dimer_freq_def)
qed

text \<open>The entries 9 to 18 of the vector are the frequencies of the ten pairs, in order.\<close>

lemma extract_features_dimer:
  assumes "k < 10"
  shows "extract_features s ! (9 + k) = dimer_freq (upper s) (dimers ! k)"
proof (cases "s = []")
  case True
  then show ?thesis using assms by (simp add: extract_features_def upper_def dimer_freq_def)
next
  case False
  then show ?thesis
    using assms by (simp add: extract_features_def Let_def upper_eq_Nil nth_append length_dimers)
qed

section \<open>Claims about the feature extractor\<close>

text \<open>
  C1. The vector has 19 entries for every non-empty string, but 20 entries, all zero,
  for the empty string: the claim of 19 entries for every input fails at the empty
  string.
\<close>

theorem extract_features_length:
  "length (extract_features s) = (if s = [] then 20 else 19) \<and>
   extract_features [] = replicate 20 0"
  by (simp add: extract_features_def Let_def upper_eq_Nil length_dimers upper_def)

text \<open>
  C7. For every input string and each of the ten pairs, the frequency of the pair in the
  vector is 0 when the sequence has at most one character, and otherwise the number of
  positions \<open>i\<close> of the sequence with \<open>sequence[i:i+2]\<close> equal to the pair, divided by
  the length minus 1; it lies between 0 and 1. Here \<open>sequence\<close> is the variable of the
  source, which holds the input in upper case from the first line of the function on.
\<close>

theorem dimer_frequency:
  assumes "k < 10"
  shows "extract_features s ! (9 + k) =
           (if length (upper s) \<le> 1 then 0
            else of_nat (card {i. i < length (upper s) \<and> take 2 (drop i (upper s)) = dimers ! k})
                   / of_nat (length (upper s) - 1))
         \<and> 0 \<le> extract_features s ! (9 + k) \<and> extract_features s ! (9 + k) \<le> 1"
proof -
  have "dimer_freq (upper s) (dimers ! k) =
           (if length (upper s) \<le> 1 then 0
            else of_nat (card {i. i < length (upper s) \<and> take 2 (drop i (upper s)) = dimers ! k})
                   / of_nat (length (upper s) - 1))"
    using dimers_length2 [OF assms] by (simp add: dimer_freq_def dimer_count_card)
  with dimer_freq_range [of "upper s" "dimers ! k"] show ?thesis
    unfolding extract_features_dimer [OF assms] by blast
qed

theorem dimer_frequency_witness:
  "extract_features ''AAAA'' ! (9 + 0) =
           (if length (upper ''AAAA'') \<le> 1 then 0
            else of_nat (card {i. i < length (upper ''AAAA'') \<and> take 2 (drop i (upper ''AAAA'')) = dimers ! 0})
                   / of_nat (length (upper ''AAAA'') - 1))
         \<and> 0 \<le> extract_features ''AAAA'' ! (9 + 0) \<and> extract_features ''AAAA'' ! (9 + 0) \<le> 1"
proof -
  have h: "(0::nat) < 10" by simp
  show ?thesis by (rule dimer_frequency [OF h])
qed

end
